theory Spec2Isabelle
  imports Main
begin

section \<open>The window registry of the desktop (WindowManager.tsx)\<close>

text \<open>
  The provider component \<open>WindowManagerProvider\<close> keeps three pieces of React state: the list
  \<open>windows\<close>, the stacking counter \<open>topZIndex\<close> (initially 100) and the record
  \<open>windowOpenTimes\<close>.  Each of its eight callbacks is a state updater; here every callback is
  a function from the state before the call to the state after it.  The calls into the two
  Sentry hooks (\<open>metrics.track...\<close>, \<open>breadcrumbs.log...\<close>) are recorded, in call order, in the
  field \<open>emitted\<close>.

  Numbers: \<open>zIndex\<close>, \<open>topZIndex\<close>, the timestamps and the geometry are JavaScript numbers.
  The code only adds 1 to the counter and subtracts two timestamps, which is exact on integers
  below \<open>2 ^ 53\<close>; they are modelled as unbounded integers.

  The type \<open>WindowState\<close> is imported from \<open>./types\<close>; its fields are those the provider reads
  and writes (\<open>id\<close>, \<open>title\<close>, \<open>x\<close>, \<open>y\<close>, \<open>width\<close>, \<open>height\<close>, \<open>zIndex\<close>, \<open>isMinimized\<close>,
  \<open>isMaximized\<close>, \<open>isFocused\<close>) together with \<open>appType\<close>.  The fields \<open>id\<close>, \<open>x\<close> and \<open>y\<close> are
  called \<open>wid\<close>, \<open>win_x\<close> and \<open>win_y\<close> below, since \<open>id\<close> is the identity function of HOL and
  \<open>x\<close>, \<open>y\<close> are wanted as variables.
\<close>

record window_state =
  wid :: string
  title :: string
  appType :: string
  win_x :: int
  win_y :: int
  width :: int
  height :: int
  zIndex :: int
  isMinimized :: bool
  isMaximized :: bool
  isFocused :: bool

text \<open>The calls made on the objects returned by \<open>useSentryMetrics\<close> and \<open>useSentryBreadcrumbs\<close>.\<close>

datatype telemetry =
    TrackWindowOpen string
  | LogWindowOpen string string
  | TrackWindowClose string int
  | LogWindowClose string string
  | TrackWindowMinimize string
  | LogWindowMinimize string string
  | TrackWindowMaximize string bool
  | LogWindowMaximize string string bool
  | TrackWindowFocus string
  | LogWindowFocus string string

record registry =
  windows :: "window_state list"
  topZIndex :: int
  windowOpenTimes :: "string \<rightharpoonup> int"
  emitted :: "telemetry list"

text \<open>The state of a freshly mounted provider: \<open>useState([])\<close>, \<open>useState(100)\<close>, \<open>useState({})\<close>.\<close>

definition init :: registry where
  "init = \<lparr> windows = [], topZIndex = 100, windowOpenTimes = Map.empty, emitted = [] \<rparr>"

text \<open>\<open>prev.find(w => w.id === id)\<close>: the first window with that id, if any.\<close>

definition find_window :: "string \<Rightarrow> window_state list \<Rightarrow> window_state option" where
  "find_window i ws = find (\<lambda>w. wid w = i) ws"

text \<open>
  \<open>openWindow(window)\<close>.  The argument has type \<open>Omit<WindowState, 'zIndex' | 'isFocused'>\<close>; the
  new record is \<open>{ ...window, zIndex: newZ, isFocused: true }\<close>, so whatever the argument carries
  in those two fields is overwritten.  \<open>now\<close> is the value of \<open>Date.now()\<close> during the call.
\<close>

definition openWindow :: "int \<Rightarrow> window_state \<Rightarrow> registry \<Rightarrow> registry" where
  "openWindow now window s =
    (let newZ = topZIndex s + 1; prev = windows s in
     case find_window (wid window) prev of
       Some existing \<Rightarrow>
         if isMinimized existing then
           s\<lparr> windows := map (\<lambda>w. if wid w = wid window
                                   then w\<lparr> isMinimized := False, isFocused := True, zIndex := newZ \<rparr>
                                   else w\<lparr> isFocused := False \<rparr>) prev,
              topZIndex := newZ,
              emitted := emitted s @ [LogWindowOpen (wid window) (title window)] \<rparr>
         else
           s\<lparr> windows := map (\<lambda>w. if wid w = wid window
                                   then w\<lparr> isFocused := True, zIndex := newZ \<rparr>
                                   else w\<lparr> isFocused := False \<rparr>) prev,
              topZIndex := newZ \<rparr>
     | None \<Rightarrow>
         s\<lparr> windows := map (\<lambda>w. w\<lparr> isFocused := False \<rparr>) prev
                          @ [window\<lparr> zIndex := newZ, isFocused := True \<rparr>],
            topZIndex := newZ,
            windowOpenTimes := (windowOpenTimes s)(wid window \<mapsto> now),
            emitted := emitted s @ [TrackWindowOpen (wid window),
                                    LogWindowOpen (wid window) (title window)] \<rparr>)"

text \<open>
  \<open>closeWindow(id)\<close>.  The telemetry branch is taken when the window is found and
  \<open>windowOpenTimes[id]\<close> is truthy, that is, present and not 0.
\<close>

definition closeWindow :: "int \<Rightarrow> string \<Rightarrow> registry \<Rightarrow> registry" where
  "closeWindow now i s =
    (let prev = windows s;
         s1 = (case find_window i prev of
                 Some window \<Rightarrow>
                   (case windowOpenTimes s i of
                      Some t \<Rightarrow>
                        if t \<noteq> 0 then
                          s\<lparr> windowOpenTimes := (windowOpenTimes s)(i := None),
                             emitted := emitted s @ [TrackWindowClose (wid window) (now - t),
                                                     LogWindowClose (wid window) (title window)] \<rparr>
                        else s
                    | None \<Rightarrow> s)
               | None \<Rightarrow> s)
     in s1\<lparr> windows := filter (\<lambda>w. wid w \<noteq> i) prev \<rparr>)"

definition minimizeWindow :: "string \<Rightarrow> registry \<Rightarrow> registry" where
  "minimizeWindow i s =
    (let prev = windows s;
         s1 = (case find_window i prev of
                 Some window \<Rightarrow>
                   s\<lparr> emitted := emitted s @ [TrackWindowMinimize (wid window),
                                              LogWindowMinimize (wid window) (title window)] \<rparr>
               | None \<Rightarrow> s)
     in s1\<lparr> windows := map (\<lambda>w. if wid w = i
                                  then w\<lparr> isMinimized := True, isFocused := False \<rparr>
                                  else w) prev \<rparr>)"

definition maximizeWindow :: "string \<Rightarrow> registry \<Rightarrow> registry" where
  "maximizeWindow i s =
    (let prev = windows s;
         s1 = (case find_window i prev of
                 Some window \<Rightarrow>
                   (let willBeMaximized = \<not> isMaximized window in
                    s\<lparr> emitted := emitted s @ [TrackWindowMaximize (wid window) willBeMaximized,
                         LogWindowMaximize (wid window) (title window) willBeMaximized] \<rparr>)
               | None \<Rightarrow> s)
     in s1\<lparr> windows := map (\<lambda>w. if wid w = i
                                  then w\<lparr> isMaximized := \<not> isMaximized w \<rparr>
                                  else w) prev \<rparr>)"

definition restoreWindow :: "string \<Rightarrow> registry \<Rightarrow> registry" where
  "restoreWindow i s =
    (let newZ = topZIndex s + 1 in
     s\<lparr> windows := map (\<lambda>w. if wid w = i
                             then w\<lparr> isMinimized := False, isFocused := True, zIndex := newZ \<rparr>
                             else w\<lparr> isFocused := False \<rparr>) (windows s),
        topZIndex := newZ \<rparr>)"

definition focusWindow :: "string \<Rightarrow> registry \<Rightarrow> registry" where
  "focusWindow i s =
    (let newZ = topZIndex s + 1; prev = windows s;
         s1 = (case find_window i prev of
                 Some window \<Rightarrow>
                   s\<lparr> emitted := emitted s @ [TrackWindowFocus (wid window),
                                              LogWindowFocus (wid window) (title window)] \<rparr>
               | None \<Rightarrow> s)
     in s1\<lparr> windows := map (\<lambda>w. if wid w = i
                                  then w\<lparr> isFocused := True, zIndex := newZ \<rparr>
                                  else w\<lparr> isFocused := False \<rparr>) prev,
            topZIndex := newZ \<rparr>)"

definition updateWindowPosition :: "string \<Rightarrow> int \<Rightarrow> int \<Rightarrow> registry \<Rightarrow> registry" where
  "updateWindowPosition i x y s =
    s\<lparr> windows := map (\<lambda>w. if wid w = i then w\<lparr> win_x := x, win_y := y \<rparr> else w) (windows s) \<rparr>"

definition updateWindowSize :: "string \<Rightarrow> int \<Rightarrow> int \<Rightarrow> registry \<Rightarrow> registry" where
  "updateWindowSize i w h s =
    s\<lparr> windows := map (\<lambda>v. if wid v = i then v\<lparr> width := w, height := h \<rparr> else v) (windows s) \<rparr>"

subsection \<open>Sequences of calls\<close>

text \<open>
  The callers of the context value: one constructor per callback, with the clock reading for
  the two callbacks that consult \<open>Date.now()\<close>.
\<close>

datatype event =
    Open int window_state
  | Close int string
  | Minimize string
  | Maximize string
  | Restore string
  | Focus string
  | UpdatePosition string int int
  | UpdateSize string int int

fun step :: "event \<Rightarrow> registry \<Rightarrow> registry" where
  "step (Open now window) s = openWindow now window s"
| "step (Close now i) s = closeWindow now i s"
| "step (Minimize i) s = minimizeWindow i s"
| "step (Maximize i) s = maximizeWindow i s"
| "step (Restore i) s = restoreWindow i s"
| "step (Focus i) s = focusWindow i s"
| "step (UpdatePosition i x y) s = updateWindowPosition i x y s"
| "step (UpdateSize i w h) s = updateWindowSize i w h s"

text \<open>The state after the calls \<open>evs\<close>, made in list order on state \<open>s\<close>.\<close>

definition run :: "event list \<Rightarrow> registry \<Rightarrow> registry" where
  "run evs s = fold step evs s"

subsection \<open>Requests, invariants and auxiliary predicates\<close>

text \<open>
  The argument object of a call \<open>open(id, title, appType, x, y, width, height)\<close>: a visible,
  unmaximised window.  Its \<open>zIndex\<close> and \<open>isFocused\<close> are placeholders, overwritten by
  \<open>openWindow\<close>.
\<close>

definition new_window :: "string \<Rightarrow> string \<Rightarrow> string \<Rightarrow> int \<Rightarrow> int \<Rightarrow> int \<Rightarrow> int \<Rightarrow> window_state" where
  "new_window i t a x y w h =
     \<lparr> wid = i, title = t, appType = a, win_x = x, win_y = y, width = w, height = h,
       zIndex = 0, isMinimized = False, isMaximized = False, isFocused = False \<rparr>"

text \<open>A request with fixed title, application type and geometry, for concrete scenarios.\<close>

definition sample :: "string \<Rightarrow> window_state" where
  "sample i = new_window i i ''app'' 0 0 640 480"

text \<open>The number of windows that have \<open>isFocused = true\<close>.\<close>

definition focused_count :: "window_state list \<Rightarrow> nat" where
  "focused_count ws = length (filter isFocused ws)"

text \<open>
  What every reachable state satisfies: ids and stacking values are pairwise distinct, no
  stacking value exceeds the counter, and at most one window is focused.
\<close>

definition registry_inv :: "registry \<Rightarrow> bool" where
  "registry_inv s \<longleftrightarrow>
     distinct (map wid (windows s)) \<and> distinct (map zIndex (windows s))
     \<and> list_all (\<lambda>w. zIndex w \<le> topZIndex s) (windows s)
     \<and> focused_count (windows s) \<le> 1"

text \<open>
  Window \<open>i\<close> is registered and every window with another id has a strictly smaller
  \<open>zIndex\<close>.
\<close>

definition holds_top :: "string \<Rightarrow> registry \<Rightarrow> bool" where
  "holds_top i s =
     (case find_window i (windows s) of
        None \<Rightarrow> False
      | Some t \<Rightarrow> list_all (\<lambda>v. wid v = i \<or> zIndex v < zIndex t) (windows s))"

text \<open>
  Calls that respect the caller obligations: \<open>focusWindow\<close> is not applied to a minimized
  window, and a window that does not exist yet is not opened with \<open>isMinimized\<close> already set.
\<close>

fun allowed :: "registry \<Rightarrow> event \<Rightarrow> bool" where
  "allowed s (Focus i) =
     (case find_window i (windows s) of Some w \<Rightarrow> \<not> isMinimized w | None \<Rightarrow> True)"
| "allowed s (Open now window) =
     (case find_window (wid window) (windows s) of Some w \<Rightarrow> True | None \<Rightarrow> \<not> isMinimized window)"
| "allowed s (Close now i) = True"
| "allowed s (Minimize i) = True"
| "allowed s (Maximize i) = True"
| "allowed s (Restore i) = True"
| "allowed s (UpdatePosition i x y) = True"
| "allowed s (UpdateSize i w h) = True"

fun run_allowed :: "event list \<Rightarrow> registry \<Rightarrow> bool" where
  "run_allowed [] s = True"
| "run_allowed (e # es) s = (allowed s e \<and> run_allowed es (step e s))"

text \<open>No window of the list is minimized and focused at once.\<close>

definition visible_focus :: "window_state list \<Rightarrow> bool" where
  "visible_focus ws = list_all (\<lambda>w. \<not> (isMinimized w \<and> isFocused w)) ws"

section \<open>Auxiliary facts\<close>

lemma find_window_None: "find_window i ws = None \<longleftrightarrow> i \<notin> wid ` set ws"
  by (auto simp: find_window_def find_None_iff)

lemma find_window_SomeD: "find_window i ws = Some w \<Longrightarrow> w \<in> set ws \<and> wid w = i"
  by (auto simp: find_window_def find_Some_iff)

lemma map_unknown_id: "i \<notin> wid ` set ws \<Longrightarrow> map (\<lambda>w. if wid w = i then f w else w) ws = ws"
  by (induction ws) auto

lemma filter_unknown_id: "i \<notin> wid ` set ws \<Longrightarrow> filter (\<lambda>w. wid w \<noteq> i) ws = ws"
  by (induction ws) auto

lemma unknown_id_noop:
  assumes "find_window i (windows s) = None"
  shows "closeWindow now i s = s" "minimizeWindow i s = s" "maximizeWindow i s = s"
    "updateWindowPosition i x y s = s" "updateWindowSize i w h s = s"
proof -
  from assms have absent: "i \<notin> wid ` set (windows s)"
    by (simp add: find_window_None)
  show "closeWindow now i s = s"
    by (simp add: closeWindow_def assms filter_unknown_id [OF absent])
  show "minimizeWindow i s = s"
    by (simp add: minimizeWindow_def assms map_unknown_id [OF absent])
  show "maximizeWindow i s = s"
    by (simp add: maximizeWindow_def assms map_unknown_id [OF absent])
  show "updateWindowPosition i x y s = s"
    by (simp add: updateWindowPosition_def map_unknown_id [OF absent])
  show "updateWindowSize i w h s = s"
    by (simp add: updateWindowSize_def map_unknown_id [OF absent])
qed

lemma zIndex_bump_set:
  assumes g: "\<And>w. zIndex (g w) = n" and h: "\<And>w. zIndex (h w) = zIndex w"
  shows "z \<in> set (map zIndex (map (\<lambda>w. if wid w = i then g w else h w) ws))
    \<Longrightarrow> z = n \<or> z \<in> set (map zIndex ws)"
  by (induction ws) (auto simp: g h split: if_splits)

lemma distinct_zIndex_bump:
  assumes "distinct (map wid ws)" "distinct (map zIndex ws)" "\<forall>w\<in>set ws. zIndex w < n"
    and g: "\<And>w. zIndex (g w) = n" and h: "\<And>w. zIndex (h w) = zIndex w"
  shows "distinct (map zIndex (map (\<lambda>w. if wid w = i then g w else h w) ws))"
  using assms(1-3)
proof (induction ws)
  case Nil
  show ?case by simp
next
  case (Cons a ws)
  let ?F = "\<lambda>w. if wid w = i then g w else h w"
  from Cons have tail: "distinct (map zIndex (map ?F ws))" by simp
  from Cons.prems have a_new: "zIndex a \<notin> set (map zIndex ws)" and a_lt: "zIndex a < n"
    and ws_lt: "\<forall>w\<in>set ws. zIndex w < n" by simp_all
  from ws_lt have n_new: "n \<notin> set (map zIndex ws)" by auto
  have head: "zIndex (?F a) \<notin> set (map zIndex (map ?F ws))"
  proof
    assume "zIndex (?F a) \<in> set (map zIndex (map ?F ws))"
    then have mem: "zIndex (?F a) = n \<or> zIndex (?F a) \<in> set (map zIndex ws)"
      by (rule zIndex_bump_set [OF g h])
    show False
    proof (cases "wid a = i")
      case True
      from Cons.prems have "wid a \<notin> wid ` set ws" by simp
      with True have "\<forall>w\<in>set ws. wid w \<noteq> i" by (metis imageI)
      then have "map ?F ws = map h ws" by simp
      then have "map zIndex (map ?F ws) = map zIndex ws" by (simp add: h)
      with \<open>zIndex (?F a) \<in> set (map zIndex (map ?F ws))\<close> True n_new
      show False by (simp add: g)
    next
      case False
      with mem a_new a_lt show False by (simp add: h)
    qed
  qed
  from head tail show ?case
    by (simp only: list.map distinct.simps) simp
qed

lemma focused_count_bump:
  assumes "distinct (map wid ws)" and h: "\<And>w. \<not> isFocused (h w)"
  shows "focused_count (map (\<lambda>w. if wid w = i then g w else h w) ws) \<le> 1"
  using assms(1)
proof (induction ws)
  case Nil
  show ?case by (simp add: focused_count_def)
next
  case (Cons a ws)
  show ?case
  proof (cases "wid a = i")
    case True
    from Cons.prems have "wid a \<notin> wid ` set ws" by simp
    with True have "\<forall>w\<in>set ws. wid w \<noteq> i" by (metis imageI)
    then have "map (\<lambda>w. if wid w = i then g w else h w) ws = map h ws" by simp
    then show ?thesis using True by (simp add: focused_count_def h)
  next
    case False
    with Cons show ?thesis by (simp add: focused_count_def h)
  qed
qed

lemma focused_count_clear: "focused_count (map (\<lambda>w. w\<lparr> isFocused := False \<rparr>) ws) = 0"
  by (induction ws) (simp_all add: focused_count_def)

lemma focused_count_filter: "focused_count (filter P ws) \<le> focused_count ws"
  by (induction ws) (simp_all add: focused_count_def)

lemma focused_count_mono:
  assumes "\<And>w. isFocused (f w) \<Longrightarrow> isFocused w"
  shows "focused_count (map f ws) \<le> focused_count ws"
proof (induction ws)
  case Nil
  show ?case by (simp add: focused_count_def)
next
  case (Cons a ws)
  then show ?case using assms [of a] by (auto simp: focused_count_def)
qed

lemma focused_count_same:
  assumes "\<And>w. isFocused (f w) = isFocused w"
  shows "focused_count (map f ws) = focused_count ws"
  by (induction ws) (simp_all add: focused_count_def assms)

lemma map_wid_same:
  assumes "\<And>w. wid (f w) = wid w"
  shows "map wid (map f ws) = map wid ws"
  by (simp add: assms)

lemma map_zIndex_same:
  assumes "\<And>w. zIndex (f w) = zIndex w"
  shows "map zIndex (map f ws) = map zIndex ws"
  by (simp add: assms)

lemma list_all_zIndex_map:
  assumes "list_all (\<lambda>w. zIndex w \<le> n) ws" "\<And>w. zIndex w \<le> n \<Longrightarrow> zIndex (f w) \<le> m"
  shows "list_all (\<lambda>w. zIndex w \<le> m) (map f ws)"
  using assms by (induction ws) simp_all

lemma bump_inv:
  assumes inv: "registry_inv s"
    and g: "\<And>w. zIndex (g w) = topZIndex s + 1 \<and> wid (g w) = wid w"
    and h: "\<And>w. zIndex (h w) = zIndex w \<and> wid (h w) = wid w \<and> \<not> isFocused (h w)"
    and ws: "windows s' = map (\<lambda>w. if wid w = i then g w else h w) (windows s)"
    and top: "topZIndex s' = topZIndex s + 1"
  shows "registry_inv s'"
proof -
  from inv have d: "distinct (map wid (windows s))" and dz: "distinct (map zIndex (windows s))"
    and le: "list_all (\<lambda>w. zIndex w \<le> topZIndex s) (windows s)"
    by (simp_all add: registry_inv_def)
  from le have lt: "\<forall>w\<in>set (windows s). zIndex w < topZIndex s + 1"
    by (auto simp: list_all_iff)
  have "map wid (windows s') = map wid (windows s)"
    unfolding ws by (rule map_wid_same) (simp add: g h)
  moreover have "distinct (map zIndex (windows s'))"
    unfolding ws using d dz lt by (rule distinct_zIndex_bump) (simp_all add: g h)
  moreover have "list_all (\<lambda>w. zIndex w \<le> topZIndex s') (windows s')"
    unfolding ws top using le by (rule list_all_zIndex_map) (simp add: g h)
  moreover have "focused_count (windows s') \<le> 1"
    unfolding ws using d by (rule focused_count_bump) (simp add: h)
  ultimately show ?thesis using d by (simp add: registry_inv_def)
qed

lemma frame_inv:
  assumes inv: "registry_inv s"
    and f: "\<And>w. zIndex (f w) = zIndex w \<and> wid (f w) = wid w \<and> (isFocused (f w) \<longrightarrow> isFocused w)"
    and ws: "windows s' = map f (windows s)"
    and top: "topZIndex s' = topZIndex s"
  shows "registry_inv s'"
proof -
  have "map wid (windows s') = map wid (windows s)"
    unfolding ws by (rule map_wid_same) (simp add: f)
  moreover have "map zIndex (windows s') = map zIndex (windows s)"
    unfolding ws by (rule map_zIndex_same) (simp add: f)
  moreover have "list_all (\<lambda>w. zIndex w \<le> topZIndex s') (windows s')"
    unfolding ws top
  proof (rule list_all_zIndex_map)
    show "list_all (\<lambda>w. zIndex w \<le> topZIndex s) (windows s)"
      using inv by (simp add: registry_inv_def)
  qed (simp add: f)
  moreover have "focused_count (windows s') \<le> focused_count (windows s)"
    unfolding ws by (rule focused_count_mono) (simp add: f)
  ultimately show ?thesis
    using inv by (simp add: registry_inv_def)
qed

lemma restoreWindow_inv:
  assumes inv: "registry_inv s"
  shows "registry_inv (restoreWindow i s)"
  by (rule bump_inv [OF inv, where i = i
        and g = "\<lambda>w. w\<lparr> isMinimized := False, isFocused := True, zIndex := topZIndex s + 1 \<rparr>"
        and h = "\<lambda>w. w\<lparr> isFocused := False \<rparr>"])
     (simp_all add: restoreWindow_def Let_def)

lemma focusWindow_inv:
  assumes inv: "registry_inv s"
  shows "registry_inv (focusWindow i s)"
  by (rule bump_inv [OF inv, where i = i
        and g = "\<lambda>w. w\<lparr> isFocused := True, zIndex := topZIndex s + 1 \<rparr>"
        and h = "\<lambda>w. w\<lparr> isFocused := False \<rparr>"])
     (simp_all add: focusWindow_def Let_def split: option.split)

lemma updateWindowPosition_inv:
  assumes inv: "registry_inv s"
  shows "registry_inv (updateWindowPosition i x y s)"
  by (rule frame_inv [OF inv, where f = "\<lambda>w. if wid w = i then w\<lparr> win_x := x, win_y := y \<rparr> else w"])
     (simp_all add: updateWindowPosition_def)

lemma updateWindowSize_inv:
  assumes inv: "registry_inv s"
  shows "registry_inv (updateWindowSize i x y s)"
  by (rule frame_inv [OF inv, where f = "\<lambda>w. if wid w = i then w\<lparr> width := x, height := y \<rparr> else w"])
     (simp_all add: updateWindowSize_def)

lemma maximizeWindow_inv:
  assumes inv: "registry_inv s"
  shows "registry_inv (maximizeWindow i s)"
  by (rule frame_inv [OF inv, where f = "\<lambda>w. if wid w = i then w\<lparr> isMaximized := \<not> isMaximized w \<rparr> else w"])
     (simp_all add: maximizeWindow_def Let_def split: option.split)

lemma minimizeWindow_inv:
  assumes inv: "registry_inv s"
  shows "registry_inv (minimizeWindow i s)"
  by (rule frame_inv [OF inv, where f = "\<lambda>w. if wid w = i then w\<lparr> isMinimized := True, isFocused := False \<rparr> else w"])
     (simp_all add: minimizeWindow_def Let_def split: option.split)

lemma closeWindow_fields:
  "windows (closeWindow now i s) = filter (\<lambda>w. wid w \<noteq> i) (windows s)"
  "topZIndex (closeWindow now i s) = topZIndex s"
  by (simp_all add: closeWindow_def Let_def split: option.split)

lemma closeWindow_inv:
  assumes "registry_inv s"
  shows "registry_inv (closeWindow now i s)"
proof -
  have "focused_count (filter (\<lambda>w. wid w \<noteq> i) (windows s)) \<le> focused_count (windows s)"
    by (rule focused_count_filter)
  then show ?thesis
    using assms unfolding registry_inv_def closeWindow_fields
    by (simp add: distinct_map_filter list_all_iff)
qed

lemma openWindow_inv:
  assumes inv: "registry_inv s"
  shows "registry_inv (openWindow now window s)"
proof (cases "find_window (wid window) (windows s)")
  case None
  then have fresh: "wid window \<notin> wid ` set (windows s)"
    by (simp add: find_window_None)
  have ws: "windows (openWindow now window s) =
      map (\<lambda>w. w\<lparr> isFocused := False \<rparr>) (windows s) @ [window\<lparr> zIndex := topZIndex s + 1, isFocused := True \<rparr>]"
    and top: "topZIndex (openWindow now window s) = topZIndex s + 1"
    using None by (simp_all add: openWindow_def Let_def)
  from inv have le: "\<forall>w\<in>set (windows s). zIndex w \<le> topZIndex s"
    by (simp add: registry_inv_def list_all_iff)
  then have "topZIndex s + 1 \<notin> zIndex ` set (windows s)" by auto
  moreover have "focused_count (windows (openWindow now window s)) = 1"
    using focused_count_clear [of "windows s"] unfolding ws by (simp add: focused_count_def)
  ultimately show ?thesis
    using inv fresh le unfolding registry_inv_def ws top
    by (auto simp: comp_def list_all_iff)
next
  case (Some existing)
  show ?thesis
  proof (cases "isMinimized existing")
    case True
    show ?thesis
      by (rule bump_inv [OF inv, where i = "wid window"
            and g = "\<lambda>w. w\<lparr> isMinimized := False, isFocused := True, zIndex := topZIndex s + 1 \<rparr>"
            and h = "\<lambda>w. w\<lparr> isFocused := False \<rparr>"]) (simp_all add: openWindow_def Let_def Some True)
  next
    case False
    show ?thesis
      by (rule bump_inv [OF inv, where i = "wid window"
            and g = "\<lambda>w. w\<lparr> isFocused := True, zIndex := topZIndex s + 1 \<rparr>"
            and h = "\<lambda>w. w\<lparr> isFocused := False \<rparr>"]) (simp_all add: openWindow_def Let_def Some False)
  qed
qed

lemma step_inv: "registry_inv s \<Longrightarrow> registry_inv (step e s)"
  by (cases e)
     (simp_all add: openWindow_inv closeWindow_inv minimizeWindow_inv maximizeWindow_inv
        restoreWindow_inv focusWindow_inv updateWindowPosition_inv updateWindowSize_inv)

lemma run_inv: "registry_inv s \<Longrightarrow> registry_inv (run evs s)"
  unfolding run_def by (induction evs arbitrary: s) (simp_all add: step_inv)

lemma init_inv: "registry_inv init"
  by (simp add: registry_inv_def init_def focused_count_def)

lemma reachable_inv: "registry_inv (run evs init)"
  by (rule run_inv [OF init_inv])

lemma maximizeWindow_fields:
  "windows (maximizeWindow i s) =
     map (\<lambda>w. if wid w = i then w\<lparr> isMaximized := \<not> isMaximized w \<rparr> else w) (windows s)"
  "topZIndex (maximizeWindow i s) = topZIndex s"
  "windowOpenTimes (maximizeWindow i s) = windowOpenTimes s"
  by (simp_all add: maximizeWindow_def Let_def split: option.split)

lemma maximizeWindow_twice:
  "windows (maximizeWindow i (maximizeWindow i s)) = windows s"
proof -
  have "map (\<lambda>w. if wid w = i then w\<lparr> isMaximized := \<not> isMaximized w \<rparr> else w)
     (map (\<lambda>w. if wid w = i then w\<lparr> isMaximized := \<not> isMaximized w \<rparr> else w) ws) = ws" for ws
    by (induction ws) simp_all
  then show ?thesis by (simp only: maximizeWindow_fields)
qed

lemma find_window_map:
  assumes "\<And>w. wid (f w) = wid w"
  shows "find_window i (map f ws) = map_option f (find_window i ws)"
  by (induction ws) (simp_all add: find_window_def assms)

lemma find_window_unique:
  assumes "distinct (map wid ws)" "find_window i ws = Some e" "w \<in> set ws" "wid w = i"
  shows "w = e"
proof -
  from assms(2) have "e \<in> set ws" "wid e = i"
    by (simp_all add: find_window_SomeD)
  moreover from assms(1) have "inj_on wid (set ws)"
    by (simp add: distinct_map)
  ultimately show ?thesis using assms(3,4) by (auto dest: inj_onD)
qed

lemma holds_top_bump:
  assumes le: "list_all (\<lambda>w. zIndex w \<le> topZIndex s) (windows s)"
    and found: "find_window i (windows s) = Some t"
    and g: "\<And>w. zIndex (g w) = topZIndex s + 1 \<and> wid (g w) = wid w"
    and h: "\<And>w. zIndex (h w) = zIndex w \<and> wid (h w) = wid w"
    and ws: "windows s' = map (\<lambda>w. if wid w = i then g w else h w) (windows s)"
  shows "holds_top i s'"
proof -
  let ?F = "\<lambda>w. if wid w = i then g w else h w"
  from found have t: "wid t = i" by (simp add: find_window_SomeD)
  have "find_window i (map ?F (windows s)) = map_option ?F (find_window i (windows s))"
    by (rule find_window_map) (simp add: g h)
  with found t have f': "find_window i (windows s') = Some (g t)"
    by (simp add: ws)
  have "list_all (\<lambda>v. wid v = i \<or> zIndex v < topZIndex s + 1) (map ?F ws)"
    if "list_all (\<lambda>w. zIndex w \<le> topZIndex s) ws" for ws
    using that by (induction ws) (simp_all add: g h)
  from this [OF le]
  have below: "list_all (\<lambda>v. wid v = i \<or> zIndex v < topZIndex s + 1) (windows s')"
    by (simp only: ws)
  have z: "zIndex (g t) = topZIndex s + 1" by (simp add: g)
  from below show ?thesis
    by (simp only: holds_top_def f' option.case z)
qed

lemma holds_top_restore:
  assumes "registry_inv s" "find_window i (windows s) = Some t"
  shows "holds_top i (restoreWindow i s)"
proof (rule holds_top_bump [where g = "\<lambda>w. w\<lparr> isMinimized := False, isFocused := True, zIndex := topZIndex s + 1 \<rparr>"
        and h = "\<lambda>w. w\<lparr> isFocused := False \<rparr>"])
  show "list_all (\<lambda>w. zIndex w \<le> topZIndex s) (windows s)"
    using assms(1) by (simp add: registry_inv_def)
  show "find_window i (windows s) = Some t" by (rule assms(2))
qed (simp_all add: restoreWindow_def Let_def)

lemma holds_top_focus:
  assumes "registry_inv s" "find_window i (windows s) = Some t"
  shows "holds_top i (focusWindow i s)"
proof (rule holds_top_bump [where g = "\<lambda>w. w\<lparr> isFocused := True, zIndex := topZIndex s + 1 \<rparr>"
        and h = "\<lambda>w. w\<lparr> isFocused := False \<rparr>"])
  show "list_all (\<lambda>w. zIndex w \<le> topZIndex s) (windows s)"
    using assms(1) by (simp add: registry_inv_def)
  show "find_window i (windows s) = Some t" by (rule assms(2))
qed (simp_all add: focusWindow_def Let_def assms(2))

lemma find_window_append:
  "find_window i (xs @ ys) = (case find_window i xs of None \<Rightarrow> find_window i ys | Some w \<Rightarrow> Some w)"
  by (induction xs) (simp_all add: find_window_def)

lemma holds_top_open:
  assumes inv: "registry_inv s"
  shows "holds_top (wid window) (openWindow now window s)"
proof (cases "find_window (wid window) (windows s)")
  case None
  let ?new = "window\<lparr> zIndex := topZIndex s + 1, isFocused := True \<rparr>"
  have ws: "windows (openWindow now window s) =
      map (\<lambda>w. w\<lparr> isFocused := False \<rparr>) (windows s) @ [?new]"
    using None by (simp add: openWindow_def Let_def)
  have "find_window (wid window) (map (\<lambda>w. w\<lparr> isFocused := False \<rparr>) (windows s))
      = map_option (\<lambda>w. w\<lparr> isFocused := False \<rparr>) (find_window (wid window) (windows s))"
    by (rule find_window_map) simp
  with None have f': "find_window (wid window) (windows (openWindow now window s)) = Some ?new"
    by (simp add: ws find_window_append) (simp add: find_window_def)
  from inv have le: "list_all (\<lambda>w. zIndex w \<le> topZIndex s) (windows s)"
    by (simp add: registry_inv_def)
  have "list_all (\<lambda>v. wid v = wid window \<or> zIndex v < topZIndex s + 1)
          (map (\<lambda>w. w\<lparr> isFocused := False \<rparr>) ws)"
    if "list_all (\<lambda>w. zIndex w \<le> topZIndex s) ws" for ws
    using that by (induction ws) simp_all
  from this [OF le]
  have below: "list_all (\<lambda>v. wid v = wid window \<or> zIndex v < topZIndex s + 1)
      (windows (openWindow now window s))"
    by (simp add: ws)
  have z: "zIndex ?new = topZIndex s + 1" by simp
  from below show ?thesis
    by (simp only: holds_top_def f' option.case z)
next
  case (Some existing)
  from inv have le: "list_all (\<lambda>w. zIndex w \<le> topZIndex s) (windows s)"
    by (simp add: registry_inv_def)
  show ?thesis
  proof (cases "isMinimized existing")
    case True
    show ?thesis
      by (rule holds_top_bump [OF le Some, where
            g = "\<lambda>w. w\<lparr> isMinimized := False, isFocused := True, zIndex := topZIndex s + 1 \<rparr>"
            and h = "\<lambda>w. w\<lparr> isFocused := False \<rparr>"])
         (simp_all add: openWindow_def Let_def Some True)
  next
    case False
    show ?thesis
      by (rule holds_top_bump [OF le Some, where
            g = "\<lambda>w. w\<lparr> isFocused := True, zIndex := topZIndex s + 1 \<rparr>"
            and h = "\<lambda>w. w\<lparr> isFocused := False \<rparr>"])
         (simp_all add: openWindow_def Let_def Some False)
  qed
qed

lemma visible_focus_filter: "visible_focus ws \<Longrightarrow> visible_focus (filter P ws)"
  by (auto simp: visible_focus_def list_all_iff)

lemma visible_focus_restore:
  assumes "visible_focus (windows s)"
  shows "visible_focus (windows (restoreWindow i s))"
  using assms by (auto simp: restoreWindow_def Let_def visible_focus_def list_all_iff)

lemma visible_focus_minimize:
  assumes "visible_focus (windows s)"
  shows "visible_focus (windows (minimizeWindow i s))"
proof -
  have "windows (minimizeWindow i s)
      = map (\<lambda>w. if wid w = i then w\<lparr> isMinimized := True, isFocused := False \<rparr> else w) (windows s)"
    by (simp add: minimizeWindow_def Let_def split: option.split)
  then show ?thesis
    using assms by (auto simp: visible_focus_def list_all_iff)
qed

lemma visible_focus_maximize:
  assumes "visible_focus (windows s)"
  shows "visible_focus (windows (maximizeWindow i s))"
  using assms by (auto simp: maximizeWindow_fields visible_focus_def list_all_iff)

lemma visible_focus_position:
  assumes "visible_focus (windows s)"
  shows "visible_focus (windows (updateWindowPosition i x y s))"
  using assms by (auto simp: updateWindowPosition_def visible_focus_def list_all_iff)

lemma visible_focus_size:
  assumes "visible_focus (windows s)"
  shows "visible_focus (windows (updateWindowSize i x y s))"
  using assms by (auto simp: updateWindowSize_def visible_focus_def list_all_iff)

lemma visible_focus_close:
  assumes "visible_focus (windows s)"
  shows "visible_focus (windows (closeWindow now i s))"
  unfolding closeWindow_fields using assms by (rule visible_focus_filter)

lemma visible_focus_bump:
  assumes vf: "visible_focus ws"
    and target: "\<And>w. w \<in> set ws \<Longrightarrow> wid w = i \<Longrightarrow> \<not> isMinimized (g w)"
    and others: "\<And>w. \<not> isFocused (h w)"
  shows "visible_focus (map (\<lambda>w. if wid w = i then g w else h w) ws)"
  using target by (auto simp: visible_focus_def list_all_iff others)

lemma visible_focus_focus:
  assumes vf: "visible_focus (windows s)" and d: "distinct (map wid (windows s))"
    and ok: "allowed s (Focus i)"
  shows "visible_focus (windows (focusWindow i s))"
proof -
  let ?g = "\<lambda>w. w\<lparr> isFocused := True, zIndex := topZIndex s + 1 \<rparr>"
  let ?h = "\<lambda>w. w\<lparr> isFocused := False \<rparr>"
  have ws: "windows (focusWindow i s) = map (\<lambda>w. if wid w = i then ?g w else ?h w) (windows s)"
    by (simp add: focusWindow_def Let_def split: option.split)
  have "\<not> isMinimized (?g w)" if "w \<in> set (windows s)" "wid w = i" for w
  proof (cases "find_window i (windows s)")
    case None
    with that show ?thesis by (auto simp: find_window_None)
  next
    case (Some e)
    from d Some that have "w = e" by (rule find_window_unique)
    with ok Some show ?thesis by simp
  qed
  then show ?thesis
    unfolding ws by (intro visible_focus_bump [OF vf, where g = ?g and h = ?h]) simp_all
qed

lemma visible_focus_open:
  assumes vf: "visible_focus (windows s)" and d: "distinct (map wid (windows s))"
    and ok: "allowed s (Open now window)"
  shows "visible_focus (windows (openWindow now window s))"
proof (cases "find_window (wid window) (windows s)")
  case None
  have "visible_focus (map (\<lambda>w. w\<lparr> isFocused := False \<rparr>) (windows s))"
    by (auto simp: visible_focus_def list_all_iff)
  with None ok show ?thesis
    by (simp add: openWindow_def Let_def visible_focus_def)
next
  case (Some e)
  let ?h = "\<lambda>w. w\<lparr> isFocused := False \<rparr>"
  show ?thesis
  proof (cases "isMinimized e")
    case True
    let ?g = "\<lambda>w. w\<lparr> isMinimized := False, isFocused := True, zIndex := topZIndex s + 1 \<rparr>"
    have ws: "windows (openWindow now window s)
        = map (\<lambda>w. if wid w = wid window then ?g w else ?h w) (windows s)"
      using Some True by (simp add: openWindow_def Let_def)
    show ?thesis
      unfolding ws by (intro visible_focus_bump [OF vf, where g = ?g and h = ?h]) simp_all
  next
    case False
    let ?g = "\<lambda>w. w\<lparr> isFocused := True, zIndex := topZIndex s + 1 \<rparr>"
    have ws: "windows (openWindow now window s)
        = map (\<lambda>w. if wid w = wid window then ?g w else ?h w) (windows s)"
      using Some False by (simp add: openWindow_def Let_def)
    have "\<not> isMinimized (?g w)" if "w \<in> set (windows s)" "wid w = wid window" for w
    proof -
      from d Some that have "w = e" by (rule find_window_unique)
      with False show ?thesis by simp
    qed
    then show ?thesis
      unfolding ws by (intro visible_focus_bump [OF vf, where g = ?g and h = ?h]) simp_all
  qed
qed

lemma step_visible_focus:
  assumes "visible_focus (windows s)" "registry_inv s" "allowed s e"
  shows "visible_focus (windows (step e s))"
proof -
  from assms(2) have d: "distinct (map wid (windows s))" by (simp add: registry_inv_def)
  show ?thesis
  proof (cases e)
    case (Open now window)
    with assms(1,3) d show ?thesis by (simp add: visible_focus_open)
  next
    case (Focus i)
    with assms(1,3) d show ?thesis by (simp add: visible_focus_focus)
  qed (simp_all add: assms(1) visible_focus_close visible_focus_minimize visible_focus_maximize
        visible_focus_restore visible_focus_position visible_focus_size)
qed

lemma run_visible_focus:
  assumes "run_allowed evs s" "visible_focus (windows s)" "registry_inv s"
  shows "visible_focus (windows (run evs s))"
  using assms
proof (induction evs arbitrary: s)
  case Nil
  then show ?case by (simp add: run_def)
next
  case (Cons e evs)
  from Cons.prems have "visible_focus (windows (step e s))" "registry_inv (step e s)"
    "run_allowed evs (step e s)"
    by (simp_all add: step_visible_focus step_inv)
  from Cons.IH [OF this(3,1,2)] show ?case by (simp add: run_def)
qed

section \<open>The claims\<close>

text \<open>
  C1 (a minimized window is not focused), as amended.  The claim as stated fails, because
  \<open>focusWindow\<close> sets \<open>isFocused\<close> and leaves \<open>isMinimized\<close> as it is.  What holds: after any
  sequence of calls on a fresh provider in which \<open>focusWindow\<close> is never applied to a
  minimized window and no new window is opened with \<open>isMinimized\<close> already set, no window is
  minimized and focused at once.
\<close>

theorem minimized_never_focused:
  assumes "run_allowed evs init"
  shows "list_all (\<lambda>w. \<not> (isMinimized w \<and> isFocused w)) (windows (run evs init))"
proof -
  have "visible_focus (windows init)" by (simp add: visible_focus_def init_def)
  with assms have "visible_focus (windows (run evs init))"
    using init_inv by (rule run_visible_focus)
  then show ?thesis by (simp only: visible_focus_def)
qed

text \<open>An instance: eight admissible calls, among them a focus on an unknown id.\<close>

theorem minimized_never_focused_witness:
  "run_allowed [Open 0 (sample ''a''), Open 1 (sample ''b''), Minimize ''a'', Focus ''b'',
                Focus ''zzz'', Open 2 (sample ''a''), Minimize ''b'', Restore ''b''] init
 \<and> list_all (\<lambda>w. \<not> (isMinimized w \<and> isFocused w))
     (windows (run [Open 0 (sample ''a''), Open 1 (sample ''b''), Minimize ''a'', Focus ''b'',
                Focus ''zzz'', Open 2 (sample ''a''), Minimize ''b'', Restore ''b''] init))"
proof -
  have ok: "run_allowed [Open 0 (sample ''a''), Open 1 (sample ''b''), Minimize ''a'', Focus ''b'',
                Focus ''zzz'', Open 2 (sample ''a''), Minimize ''b'', Restore ''b''] init"
    by (simp add: openWindow_def minimizeWindow_def focusWindow_def restoreWindow_def init_def
        sample_def new_window_def find_window_def Let_def)
  from ok minimized_never_focused [OF ok] show ?thesis by (rule conjI)
qed

text \<open>
  The claim as stated is false: after open \<open>a\<close>, minimize \<open>a\<close>, focus \<open>a\<close> the only window is
  minimized and focused.
\<close>

theorem minimized_focused_counterexample:
  "map wid (windows (run [Open 0 (sample ''a''), Minimize ''a'', Focus ''a''] init)) = [''a'']
 \<and> map isMinimized (windows (run [Open 0 (sample ''a''), Minimize ''a'', Focus ''a''] init)) = [True]
 \<and> map isFocused (windows (run [Open 0 (sample ''a''), Minimize ''a'', Focus ''a''] init)) = [True]"
  by (simp add: run_def openWindow_def minimizeWindow_def focusWindow_def init_def
      sample_def new_window_def find_window_def Let_def)

text \<open>
  C2 (unknown id).  The claim: on an id that is not registered, each of close, minimize,
  maximize, restore, focus, updatePosition and updateSize leaves the whole state unchanged.
  Lemma \<open>unknown_id_noop\<close> shows this for close, minimize, maximize, updatePosition and
  updateSize.  For \<open>focusWindow\<close> and \<open>restoreWindow\<close> it fails: with the single focused window
  \<open>a\<close> registered, a call on the unregistered id \<open>zzz\<close> clears the focus of \<open>a\<close> and
  advances the counter from 101 to 102.
\<close>

theorem focus_restore_unknown_id:
  "find_window ''zzz'' (windows (openWindow 0 (sample ''a'') init)) = None
 \<and> map isFocused (windows (openWindow 0 (sample ''a'') init)) = [True]
 \<and> topZIndex (openWindow 0 (sample ''a'') init) = 101
 \<and> map isFocused (windows (focusWindow ''zzz'' (openWindow 0 (sample ''a'') init))) = [False]
 \<and> topZIndex (focusWindow ''zzz'' (openWindow 0 (sample ''a'') init)) = 102
 \<and> map isFocused (windows (restoreWindow ''zzz'' (openWindow 0 (sample ''a'') init))) = [False]
 \<and> topZIndex (restoreWindow ''zzz'' (openWindow 0 (sample ''a'') init)) = 102"
  by (simp add: openWindow_def focusWindow_def restoreWindow_def init_def sample_def
      new_window_def find_window_def Let_def)

text \<open>
  C3 (open, then close), as amended.  When \<open>window.id\<close> is not registered, \<open>openWindow\<close>
  followed by \<open>closeWindow\<close> of that id gives back the windows of the state before the open,
  in the same order and with every field as it was except \<open>isFocused\<close>, which is false on all
  of them: the open cleared it and the close does not hand it back.  The counter is greater
  by one.
\<close>

theorem open_then_close:
  assumes "find_window (wid window) (windows s) = None"
  shows "windows (closeWindow t2 (wid window) (openWindow t1 window s))
           = map (\<lambda>w. w\<lparr> isFocused := False \<rparr>) (windows s)
       \<and> topZIndex (closeWindow t2 (wid window) (openWindow t1 window s)) = topZIndex s + 1"
proof -
  from assms have absent: "wid window \<notin> wid ` set (windows s)"
    by (simp add: find_window_None)
  have "filter (\<lambda>w. wid w \<noteq> wid window) (map (\<lambda>w. w\<lparr> isFocused := False \<rparr>) ws)
      = map (\<lambda>w. w\<lparr> isFocused := False \<rparr>) ws" if "wid window \<notin> wid ` set ws" for ws
    using that by (induction ws) auto
  from this [OF absent] show ?thesis
    using assms by (simp add: closeWindow_fields openWindow_def Let_def)
qed

text \<open>An instance: \<open>b\<close> is opened and closed while \<open>a\<close> is registered.\<close>

theorem open_then_close_witness:
  "find_window ''b'' (windows (openWindow 0 (sample ''a'') init)) = None
 \<and> map isFocused (windows (closeWindow 2 ''b'' (openWindow 1 (sample ''b'') (openWindow 0 (sample ''a'') init)))) = [False]
 \<and> topZIndex (closeWindow 2 ''b'' (openWindow 1 (sample ''b'') (openWindow 0 (sample ''a'') init))) = 102"
proof -
  let ?s = "openWindow 0 (sample ''a'') init"
  have b: "wid (sample ''b'') = ''b''" by (simp add: sample_def new_window_def)
  have fresh: "find_window ''b'' (windows ?s) = None"
    by (simp add: openWindow_def init_def sample_def new_window_def find_window_def Let_def)
  then have "find_window (wid (sample ''b'')) (windows ?s) = None" by (simp only: b)
  from open_then_close [OF this, of 2 1]
  have "windows (closeWindow 2 ''b'' (openWindow 1 (sample ''b'') ?s))
           = map (\<lambda>w. w\<lparr> isFocused := False \<rparr>) (windows ?s)"
    and "topZIndex (closeWindow 2 ''b'' (openWindow 1 (sample ''b'') ?s)) = topZIndex ?s + 1"
    by (simp_all only: b)
  moreover have "map isFocused (map (\<lambda>w. w\<lparr> isFocused := False \<rparr>) (windows ?s)) = [False]"
    "topZIndex ?s + 1 = 102"
    by (simp_all add: openWindow_def init_def sample_def new_window_def find_window_def Let_def)
  ultimately show ?thesis using fresh by simp
qed

text \<open>
  The claim as stated is false: \<open>a\<close> is focused before \<open>b\<close> is opened and closed, and is not
  focused afterwards.
\<close>

theorem open_then_close_counterexample:
  "find_window ''b'' (windows (openWindow 0 (sample ''a'') init)) = None
 \<and> map isFocused (windows (openWindow 0 (sample ''a'') init)) = [True]
 \<and> map isFocused (windows (closeWindow 2 ''b'' (openWindow 1 (sample ''b'') (openWindow 0 (sample ''a'') init)))) = [False]
 \<and> windows (closeWindow 2 ''b'' (openWindow 1 (sample ''b'') (openWindow 0 (sample ''a'') init)))
     \<noteq> windows (openWindow 0 (sample ''a'') init)"
  by (simp add: openWindow_def closeWindow_def init_def sample_def new_window_def find_window_def Let_def)

text \<open>
  C4 (notifications of open), as amended.  \<open>openWindow\<close> calls \<open>metrics.trackWindowOpen\<close>
  exactly when no window with the id existed; it calls \<open>breadcrumbs.logWindowOpen\<close> when no
  window with the id existed and also when the existing window was minimized (the restore
  branch); it emits nothing when the existing window was not minimized.
\<close>

theorem open_notifications:
  "emitted (openWindow now window s) = emitted s @
     (case find_window (wid window) (windows s) of
        None \<Rightarrow> [TrackWindowOpen (wid window), LogWindowOpen (wid window) (title window)]
      | Some existing \<Rightarrow>
          if isMinimized existing then [LogWindowOpen (wid window) (title window)] else [])"
  by (simp add: openWindow_def Let_def split: option.split)

text \<open>
  The claim as stated is false: \<open>a\<close> exists and is minimized, and opening it again adds the
  breadcrumb "Window opened".
\<close>

theorem open_notification_counterexample:
  "find_window ''a'' (windows (run [Open 0 (sample ''a''), Minimize ''a''] init)) \<noteq> None
 \<and> emitted (openWindow 1 (sample ''a'') (run [Open 0 (sample ''a''), Minimize ''a''] init))
     = emitted (run [Open 0 (sample ''a''), Minimize ''a''] init) @ [LogWindowOpen ''a'' ''a'']"
  by (simp add: run_def openWindow_def minimizeWindow_def init_def sample_def new_window_def find_window_def Let_def)

text \<open>
  C5 (focus is exclusive).  After any sequence of calls on a freshly mounted provider, the
  number of windows with \<open>isFocused = true\<close> is 0 or 1.
\<close>

theorem at_most_one_focused:
  "length (filter isFocused (windows (run evs init))) \<le> 1"
  using reachable_inv [of evs] by (simp add: registry_inv_def focused_count_def)

text \<open>
  C6 (stacking values).  In every state reached from a fresh provider the \<open>zIndex\<close> values are
  pairwise distinct.  After \<open>openWindow\<close> in such a state, and after \<open>focusWindow\<close> or
  \<open>restoreWindow\<close> on a registered id, the window concerned is registered and its \<open>zIndex\<close> is
  strictly greater than that of every other window.
\<close>

theorem zIndex_distinct_and_top:
  "distinct (map zIndex (windows (run evs init)))
 \<and> holds_top (wid window) (openWindow now window (run evs init))
 \<and> (find_window i (windows (run evs init)) \<noteq> None \<longrightarrow>
      holds_top i (focusWindow i (run evs init)) \<and> holds_top i (restoreWindow i (run evs init)))"
proof -
  have inv: "registry_inv (run evs init)" by (rule reachable_inv)
  then have "distinct (map zIndex (windows (run evs init)))"
    by (simp add: registry_inv_def)
  moreover have "holds_top (wid window) (openWindow now window (run evs init))"
    using inv by (rule holds_top_open)
  moreover have "holds_top i (focusWindow i (run evs init)) \<and> holds_top i (restoreWindow i (run evs init))"
    if "find_window i (windows (run evs init)) \<noteq> None"
    using that holds_top_focus [OF inv] holds_top_restore [OF inv] by blast
  ultimately show ?thesis by blast
qed

text \<open>An instance: \<open>a\<close> and \<open>b\<close> open, \<open>a\<close> minimized; then \<open>c\<close> is opened, or \<open>a\<close> is focused or restored.\<close>

theorem zIndex_distinct_and_top_witness:
  "find_window ''a'' (windows (run [Open 0 (sample ''a''), Open 1 (sample ''b''), Minimize ''a''] init)) \<noteq> None
 \<and> distinct (map zIndex (windows (run [Open 0 (sample ''a''), Open 1 (sample ''b''), Minimize ''a''] init)))
 \<and> holds_top ''c'' (openWindow 2 (sample ''c'') (run [Open 0 (sample ''a''), Open 1 (sample ''b''), Minimize ''a''] init))
 \<and> holds_top ''a'' (focusWindow ''a'' (run [Open 0 (sample ''a''), Open 1 (sample ''b''), Minimize ''a''] init))
 \<and> holds_top ''a'' (restoreWindow ''a'' (run [Open 0 (sample ''a''), Open 1 (sample ''b''), Minimize ''a''] init))"
proof -
  let ?evs = "[Open 0 (sample ''a''), Open 1 (sample ''b''), Minimize ''a'']"
  have reg: "find_window ''a'' (windows (run ?evs init)) \<noteq> None"
    by (simp add: run_def openWindow_def minimizeWindow_def init_def sample_def new_window_def
        find_window_def Let_def)
  have c: "wid (sample ''c'') = ''c''" by (simp add: sample_def new_window_def)
  from zIndex_distinct_and_top [of ?evs "sample ''c''" 2 "''a''"] reg
  show ?thesis by (simp only: c simp_thms)
qed

text \<open>
  C7 (close).  In every state reached from a fresh provider in which the id is registered,
  \<open>closeWindow\<close> takes exactly the record with that id out of the list: the windows before it
  and after it stay as they are, field by field and in order (so no focus is handed over), and
  the counter is unchanged.
\<close>

theorem close_removes_only_target:
  assumes "find_window i (windows (run evs init)) = Some w"
  shows "\<exists>before after. windows (run evs init) = before @ [w] @ after
      \<and> windows (closeWindow now i (run evs init)) = before @ after
      \<and> topZIndex (closeWindow now i (run evs init)) = topZIndex (run evs init)"
proof -
  let ?s = "run evs init"
  have d: "distinct (map wid (windows ?s))"
    using reachable_inv [of evs] by (simp add: registry_inv_def)
  from assms have "w \<in> set (windows ?s)" and w: "wid w = i"
    by (simp_all add: find_window_SomeD)
  then obtain before after where split: "windows ?s = before @ w # after"
    by (auto simp: in_set_conv_decomp)
  from d split w have "i \<notin> wid ` set before" "i \<notin> wid ` set after"
    by auto
  then have "filter (\<lambda>v. wid v \<noteq> i) before = before" "filter (\<lambda>v. wid v \<noteq> i) after = after"
    by (simp_all add: filter_unknown_id)
  with split w have "windows (closeWindow now i ?s) = before @ after"
    by (simp add: closeWindow_fields)
  with split show ?thesis
    by (auto simp: closeWindow_fields)
qed

text \<open>An instance: \<open>a\<close> is closed while \<open>b\<close> is registered.\<close>

theorem close_removes_only_target_witness:
  "find_window ''a'' (windows (run [Open 0 (sample ''a''), Open 1 (sample ''b'')] init))
     = Some ((sample ''a'')\<lparr> zIndex := 101 \<rparr>)
 \<and> (\<exists>before after.
       windows (run [Open 0 (sample ''a''), Open 1 (sample ''b'')] init)
         = before @ [(sample ''a'')\<lparr> zIndex := 101 \<rparr>] @ after
     \<and> windows (closeWindow 2 ''a'' (run [Open 0 (sample ''a''), Open 1 (sample ''b'')] init))
         = before @ after
     \<and> topZIndex (closeWindow 2 ''a'' (run [Open 0 (sample ''a''), Open 1 (sample ''b'')] init))
         = topZIndex (run [Open 0 (sample ''a''), Open 1 (sample ''b'')] init))"
proof -
  let ?evs = "[Open 0 (sample ''a''), Open 1 (sample ''b'')]"
  have found: "find_window ''a'' (windows (run ?evs init)) = Some ((sample ''a'')\<lparr> zIndex := 101 \<rparr>)"
    by (simp add: run_def openWindow_def init_def sample_def new_window_def find_window_def Let_def)
  from close_removes_only_target [OF found, of 2] found
  show ?thesis by blast
qed

text \<open>
  C8 (maximize).  \<open>maximizeWindow i\<close> negates \<open>isMaximized\<close> on the window with id \<open>i\<close> and
  changes no other field of any window, nor the counter; two calls in a row give back the
  window list, the counter and the open times of the state before them.
\<close>

theorem maximize_flag_flip:
  "map wid (windows (maximizeWindow i s)) = map wid (windows s)
 \<and> map title (windows (maximizeWindow i s)) = map title (windows s)
 \<and> map appType (windows (maximizeWindow i s)) = map appType (windows s)
 \<and> map win_x (windows (maximizeWindow i s)) = map win_x (windows s)
 \<and> map win_y (windows (maximizeWindow i s)) = map win_y (windows s)
 \<and> map width (windows (maximizeWindow i s)) = map width (windows s)
 \<and> map height (windows (maximizeWindow i s)) = map height (windows s)
 \<and> map zIndex (windows (maximizeWindow i s)) = map zIndex (windows s)
 \<and> map isMinimized (windows (maximizeWindow i s)) = map isMinimized (windows s)
 \<and> map isFocused (windows (maximizeWindow i s)) = map isFocused (windows s)
 \<and> map isMaximized (windows (maximizeWindow i s))
     = map (\<lambda>w. if wid w = i then \<not> isMaximized w else isMaximized w) (windows s)
 \<and> topZIndex (maximizeWindow i s) = topZIndex s
 \<and> windows (maximizeWindow i (maximizeWindow i s)) = windows s
 \<and> topZIndex (maximizeWindow i (maximizeWindow i s)) = topZIndex s
 \<and> windowOpenTimes (maximizeWindow i (maximizeWindow i s)) = windowOpenTimes s"
proof -
  have once: "windows (maximizeWindow i s) =
     map (\<lambda>w. if wid w = i then w\<lparr> isMaximized := \<not> isMaximized w \<rparr> else w) (windows s)"
    by (rule maximizeWindow_fields)
  have "map isMaximized (windows (maximizeWindow i s))
     = map (\<lambda>w. if wid w = i then \<not> isMaximized w else isMaximized w) (windows s)"
    unfolding once by simp
  moreover have "map wid (windows (maximizeWindow i s)) = map wid (windows s)"
    "map title (windows (maximizeWindow i s)) = map title (windows s)"
    "map appType (windows (maximizeWindow i s)) = map appType (windows s)"
    "map win_x (windows (maximizeWindow i s)) = map win_x (windows s)"
    "map win_y (windows (maximizeWindow i s)) = map win_y (windows s)"
    "map width (windows (maximizeWindow i s)) = map width (windows s)"
    "map height (windows (maximizeWindow i s)) = map height (windows s)"
    "map zIndex (windows (maximizeWindow i s)) = map zIndex (windows s)"
    "map isMinimized (windows (maximizeWindow i s)) = map isMinimized (windows s)"
    "map isFocused (windows (maximizeWindow i s)) = map isFocused (windows s)"
    unfolding once by simp_all
  ultimately show ?thesis
    by (simp only: maximizeWindow_twice maximizeWindow_fields(2,3) simp_thms)
qed

text \<open>
  C9 (scenario D).  After \<open>a\<close>, \<open>b\<close>, \<open>c\<close> have been opened in that order on a fresh provider
  (stacking values 101, 102, 103), \<open>focusWindow a\<close> makes \<open>a\<close> the only focused window and gives
  it the stacking value 104, above the unchanged values 102 of \<open>b\<close> and 103 of \<open>c\<close>.
\<close>

theorem scenario_D:
  "map wid (windows (run [Open t1 (wa\<lparr> wid := ''a'' \<rparr>), Open t2 (wb\<lparr> wid := ''b'' \<rparr>), Open t3 (wc\<lparr> wid := ''c'' \<rparr>)] init)) = [''a'', ''b'', ''c'']
 \<and> map zIndex (windows (run [Open t1 (wa\<lparr> wid := ''a'' \<rparr>), Open t2 (wb\<lparr> wid := ''b'' \<rparr>), Open t3 (wc\<lparr> wid := ''c'' \<rparr>)] init)) = [101, 102, 103]
 \<and> map wid (windows (focusWindow ''a'' (run [Open t1 (wa\<lparr> wid := ''a'' \<rparr>), Open t2 (wb\<lparr> wid := ''b'' \<rparr>), Open t3 (wc\<lparr> wid := ''c'' \<rparr>)] init))) = [''a'', ''b'', ''c'']
 \<and> map isFocused (windows (focusWindow ''a'' (run [Open t1 (wa\<lparr> wid := ''a'' \<rparr>), Open t2 (wb\<lparr> wid := ''b'' \<rparr>), Open t3 (wc\<lparr> wid := ''c'' \<rparr>)] init))) = [True, False, False]
 \<and> map zIndex (windows (focusWindow ''a'' (run [Open t1 (wa\<lparr> wid := ''a'' \<rparr>), Open t2 (wb\<lparr> wid := ''b'' \<rparr>), Open t3 (wc\<lparr> wid := ''c'' \<rparr>)] init))) = [104, 102, 103]"
  by (simp add: run_def init_def openWindow_def focusWindow_def find_window_def Let_def)

text \<open>
  C10 (open on an existing id).  When a window with the id of the request exists, it still
  exists after \<open>openWindow\<close>, with the title, application type, geometry and \<open>isMaximized\<close> it
  had: the title and application type of the request are ignored, and only \<open>isMinimized\<close>,
  \<open>isFocused\<close> and \<open>zIndex\<close> can differ.
\<close>

theorem open_existing_keeps_identity:
  assumes "find_window (wid window) (windows s) = Some w"
  shows "\<exists>w'. find_window (wid window) (windows (openWindow now window s)) = Some w'
    \<and> wid w' = wid w \<and> title w' = title w \<and> appType w' = appType w
    \<and> win_x w' = win_x w \<and> win_y w' = win_y w \<and> width w' = width w \<and> height w' = height w
    \<and> isMaximized w' = isMaximized w"
proof (cases "isMinimized w")
  case True
  let ?f = "\<lambda>v. if wid v = wid window
            then v\<lparr> isMinimized := False, isFocused := True, zIndex := topZIndex s + 1 \<rparr>
            else v\<lparr> isFocused := False \<rparr>"
  have "windows (openWindow now window s) = map ?f (windows s)"
    using assms True by (simp add: openWindow_def Let_def)
  moreover have "find_window (wid window) (map ?f (windows s)) = map_option ?f (Some w)"
    unfolding assms [symmetric] by (rule find_window_map) simp
  ultimately show ?thesis
    using find_window_SomeD [OF assms] by simp
next
  case False
  let ?f = "\<lambda>v. if wid v = wid window
            then v\<lparr> isFocused := True, zIndex := topZIndex s + 1 \<rparr>
            else v\<lparr> isFocused := False \<rparr>"
  have "windows (openWindow now window s) = map ?f (windows s)"
    using assms False by (simp add: openWindow_def Let_def)
  moreover have "find_window (wid window) (map ?f (windows s)) = map_option ?f (Some w)"
    unfolding assms [symmetric] by (rule find_window_map) simp
  ultimately show ?thesis
    using find_window_SomeD [OF assms] by simp
qed

text \<open>An instance: the minimized window \<open>a\<close> is opened again under another title and type.\<close>

theorem open_existing_keeps_identity_witness:
  "find_window ''a'' (windows (minimizeWindow ''a'' (openWindow 0 (sample ''a'') init)))
     = Some ((sample ''a'')\<lparr> zIndex := 101, isMinimized := True \<rparr>)
 \<and> (\<exists>w'. find_window ''a''
        (windows (openWindow 5 (new_window ''a'' ''other title'' ''other app'' 9 9 9 9)
           (minimizeWindow ''a'' (openWindow 0 (sample ''a'') init)))) = Some w'
      \<and> title w' = ''a'' \<and> appType w' = ''app'')"
proof -
  let ?s = "minimizeWindow ''a'' (openWindow 0 (sample ''a'') init)"
  let ?w = "(sample ''a'')\<lparr> zIndex := 101, isMinimized := True \<rparr>"
  let ?req = "new_window ''a'' ''other title'' ''other app'' 9 9 9 9"
  have found: "find_window ''a'' (windows ?s) = Some ?w"
    by (simp add: minimizeWindow_def openWindow_def init_def sample_def new_window_def
        find_window_def Let_def)
  have req: "wid ?req = ''a''" by (simp add: new_window_def)
  from found have "find_window (wid ?req) (windows ?s) = Some ?w"
    by (simp only: req)
  from open_existing_keeps_identity [OF this, of 5]
  obtain w' where "find_window (wid ?req) (windows (openWindow 5 ?req ?s)) = Some w'"
    "title w' = title ?w" "appType w' = appType ?w"
    by blast
  then have "find_window ''a'' (windows (openWindow 5 ?req ?s)) = Some w'
      \<and> title w' = ''a'' \<and> appType w' = ''app''"
    by (simp add: req sample_def new_window_def)
  with found show ?thesis by blast
qed

end
